theory Spec2Isabelle
  imports Complex_Main "HOL-Library.Monad_Syntax"
begin

section \<open>Python numbers used by the decoder\<close>

text \<open>
  The decoder of \<^verbatim>\<open>ppmadapter/__init__.py\<close> mixes Python integers (sample values,
  sample indices, the channel index, the marker width) with Python floats (the sample
  rate, the pulse duration, the scaled axis value). Integers are unbounded and are
  modelled by \<^typ>\<open>int\<close>. A finite float is modelled by the rational number it denotes;
  every float operation computes the exact rational result and rounds it to the nearest
  binary64 value, ties to even, as CPython does on IEEE 754 hardware. A result whose
  magnitude reaches \<open>2 ^ 1024\<close> is an infinity and is modelled by \<open>None\<close>.
\<close>

datatype py_error = OverflowError | ZeroDivisionError

definition pow2 :: "int \<Rightarrow> rat" where
  "pow2 e = (if 0 \<le> e then 2 ^ nat e else 1 / 2 ^ nat (- e))"

text \<open>\<open>ilog2 n\<close> is the position of the highest set bit of \<open>n\<close>, for \<open>n \<ge> 1\<close>.\<close>

function ilog2 :: "int \<Rightarrow> int" where
  "ilog2 n = (if n < 2 then 0 else ilog2 (n div 2) + 1)"
  by pat_completeness auto
termination
  by (relation "measure nat") auto

declare ilog2.simps [simp del]

text \<open>The binary exponent \<open>e\<close> of a positive rational \<open>a\<close>: \<open>2 ^ e \<le> a < 2 ^ (e + 1)\<close>.\<close>

definition expo :: "rat \<Rightarrow> int" where
  "expo a =
     (if 1 \<le> a then ilog2 \<lfloor>a\<rfloor>
      else let k = ilog2 \<lfloor>1 / a\<rfloor> in if a * pow2 k = 1 then - k else - (k + 1))"

text \<open>Rounding to the nearest integer, ties to the even one.\<close>

definition round_even :: "rat \<Rightarrow> int" where
  "round_even x =
     (let n = \<lfloor>x\<rfloor>; r = x - of_int n
      in if r < 1 / 2 then n else if 1 / 2 < r then n + 1 else if even n then n else n + 1)"

text \<open>
  Rounding an exact result to binary64: 53 significant bits, exponents from \<open>-1022\<close>
  (below that the spacing stays that of the subnormal numbers), infinity from
  \<open>2 ^ 1024\<close> on.
\<close>

definition fl :: "rat \<Rightarrow> rat option" where
  "fl x =
     (if x = 0 then Some 0
      else let e = max (expo \<bar>x\<bar>) (- 1022);
               u = pow2 (e - 52);
               y = of_int (round_even (x / u)) * u
           in if \<bar>y\<bar> < pow2 1024 then Some y else None)"

text \<open>
  \<^verbatim>\<open>float(n)\<close> for an integer \<open>n\<close> rounds correctly and raises \<^verbatim>\<open>OverflowError\<close>
  when \<open>n\<close> is too large; \<^verbatim>\<open>int(x)\<close> for a finite float truncates toward zero and
  raises \<^verbatim>\<open>OverflowError\<close> for an infinity.
\<close>

definition py_float :: "int \<Rightarrow> py_error + rat" where
  "py_float n = (case fl (of_int n) of None \<Rightarrow> Inl OverflowError | Some y \<Rightarrow> Inr y)"

definition py_int :: "rat \<Rightarrow> int" where
  "py_int x = (if 0 \<le> x then \<lfloor>x\<rfloor> else \<lceil>x\<rceil>)"

text \<open>A float literal denotes the binary64 value nearest to its decimal text.\<close>

definition float_lit :: "rat \<Rightarrow> rat" where
  "float_lit x = (case fl x of None \<Rightarrow> 0 | Some y \<Rightarrow> y)"

section \<open>The decoder\<close>

text \<open>
  The axes of the channel mapping are the \<^verbatim>\<open>evdev.ecodes\<close> constants the source
  names. The calls the decoder makes on its \<^verbatim>\<open>UInput\<close> device are recorded in order:
  the construction of the device with its \<^verbatim>\<open>name\<close>, its \<^verbatim>\<open>EV_ABS\<close> capabilities
  (axis and parameter tuple) and its \<^verbatim>\<open>EV_KEY\<close> capabilities (the dictionary
  \<^verbatim>\<open>{288: 'BTN_JOYSTICK'}\<close>); \<^verbatim>\<open>write(EV_ABS, axis, value)\<close>; and \<^verbatim>\<open>syn()\<close>.
  The two \<^verbatim>\<open>print\<close> statements only write to standard output and are left out.
\<close>

datatype abs_axis = ABS_X | ABS_Y | ABS_Z | ABS_THROTTLE

datatype sink_call =
    UInput string "(abs_axis \<times> int list) list" "(int \<times> string) list"
  | Write abs_axis int
  | Syn

text \<open>
  The fields of \<^verbatim>\<open>PPMDecoder\<close>. \<open>rate\<close> is the float \<^verbatim>\<open>self._rate\<close>, \<open>lf\<close> the
  index of the last falling edge (\<^verbatim>\<open>self._lf\<close>), \<open>ch\<close> the channel index
  (\<^verbatim>\<open>self._ch\<close>); \<open>None\<close> is Python's \<^verbatim>\<open>None\<close>. The mapping is a dictionary in
  insertion order.
\<close>

record decoder =
  rate :: rat
  lf :: "int option"
  threshold :: int
  last_edge :: "bool option"
  ch :: "int option"
  marker :: int
  mapping :: "(int \<times> abs_axis) list"

text \<open>
  \<^verbatim>\<open>PPMDecoder.__init__\<close>. \<^verbatim>\<open>float(rate)\<close> raises for an integer beyond the float
  range. \<^verbatim>\<open>2.0 * 0.0025 * self._rate\<close> is evaluated left to right; it cannot exceed
  the rate in magnitude, but were it an infinity \<^verbatim>\<open>int\<close> would raise.
\<close>

definition ppm_mapping :: "(int \<times> abs_axis) list" where
  "ppm_mapping = [(0, ABS_X), (1, ABS_Y), (2, ABS_Z), (3, ABS_THROTTLE)]"

definition init :: "int \<Rightarrow> py_error + (decoder \<times> sink_call list)" where
  "init r =
     (case py_float r of
        Inl e \<Rightarrow> Inl e
      | Inr fr \<Rightarrow>
          (case Option.bind (fl (2 * float_lit (25 / 10000))) (\<lambda>c. fl (c * fr)) of
             None \<Rightarrow> Inl OverflowError
           | Some m \<Rightarrow>
               let events = map (\<lambda>v. (v, [0, 5, 255, 0])) (map snd ppm_mapping)
               in Inr (\<lparr>rate = fr, lf = None, threshold = 15000, last_edge = None,
                         ch = None, marker = py_int m, mapping = ppm_mapping\<rparr>,
                       [UInput ''ppmadapter'' events [(288, ''BTN_JOYSTICK'')]])))"

text \<open>
  Lines 146 and 147 of \<^verbatim>\<open>PPMDecoder.signal\<close>, up to the conversion to an integer:
  \<^verbatim>\<open>duration = float(w) / self._rate\<close> and \<^verbatim>\<open>(duration - 0.0007) * 1000 * 255\<close>,
  for \<open>fw = float(w)\<close> and a rate other than zero. Each operation rounds; \<open>None\<close> is an
  infinity, and an infinity anywhere in the chain stays one.
\<close>

definition pulse_value :: "rat \<Rightarrow> rat \<Rightarrow> rat option" where
  "pulse_value fw r =
     do {
       duration \<leftarrow> fl (fw / r);
       a \<leftarrow> fl (duration - float_lit (7 / 10000));
       b \<leftarrow> fl (a * 1000);
       fl (b * 255)
     }"

text \<open>
  \<^verbatim>\<open>PPMDecoder.signal\<close>: the new decoder, the calls made on the device and the
  returned flag. The value is computed before the write and before the channel index
  advances, so a raised error leaves both undone: \<^verbatim>\<open>float(w)\<close> can overflow, the
  division raises for a zero rate, and \<^verbatim>\<open>int\<close> raises for an infinity.
\<close>

definition signal :: "decoder \<Rightarrow> int \<Rightarrow> py_error + (decoder \<times> sink_call list \<times> bool)" where
  "signal s w =
     (if w > marker s then Inr (s\<lparr>ch := Some 0\<rparr>, [], False)
      else case ch s of
        None \<Rightarrow> Inr (s, [], False)
      | Some k \<Rightarrow>
          (case map_of (mapping s) k of
             None \<Rightarrow> Inr (s, [], False)
           | Some axis \<Rightarrow>
               (case py_float w of
                  Inl e \<Rightarrow> Inl e
                | Inr fw \<Rightarrow>
                    if rate s = 0 then Inl ZeroDivisionError
                    else
                      (case pulse_value fw (rate s) of
                         None \<Rightarrow> Inl OverflowError
                       | Some x \<Rightarrow>
                           Inr (s\<lparr>ch := Some (k + 1)\<rparr>, [Write axis (py_int x)], True)))))"

text \<open>
  One iteration of the loop of \<^verbatim>\<open>PPMDecoder.feed\<close>, for the sample \<open>x\<close> at index
  \<open>i\<close>: the new decoder, the calls made, and the flag to be or-ed into
  \<^verbatim>\<open>sync_req\<close>.
\<close>

definition feed_step :: "decoder \<Rightarrow> int \<Rightarrow> int \<Rightarrow> py_error + (decoder \<times> sink_call list \<times> bool)" where
  "feed_step s i x =
     (let this_edge = (x > threshold s) in
      case last_edge s of
        None \<Rightarrow> Inr (s\<lparr>last_edge := Some this_edge\<rparr>, [], False)
      | Some le \<Rightarrow>
          if this_edge \<and> \<not> le then
            (case lf s of
               None \<Rightarrow> Inr (s\<lparr>last_edge := Some this_edge\<rparr>, [], False)
             | Some f \<Rightarrow>
                 (case signal s (i - f) of
                    Inl e \<Rightarrow> Inl e
                  | Inr (s', calls, b) \<Rightarrow> Inr (s'\<lparr>last_edge := Some this_edge\<rparr>, calls, b)))
          else if \<not> this_edge \<and> le then
            Inr (s\<lparr>lf := Some i, last_edge := Some this_edge\<rparr>, [], False)
          else Inr (s\<lparr>last_edge := Some this_edge\<rparr>, [], False))"

text \<open>
  The loop \<^verbatim>\<open>for i in range(len(data))\<close>, from index \<open>i\<close> on, threading the
  decoder, the calls made so far and \<^verbatim>\<open>sync_req\<close>. An exception ends it.
\<close>

fun feed_loop :: "int list \<Rightarrow> int \<Rightarrow> decoder \<times> sink_call list \<times> bool
    \<Rightarrow> py_error + (decoder \<times> sink_call list \<times> bool)" where
  "feed_loop [] i acc = Inr acc"
| "feed_loop (x # xs) i (s, calls, sync_req) =
     (case feed_step s i x of
        Inl e \<Rightarrow> Inl e
      | Inr (s', calls', b) \<Rightarrow> feed_loop xs (i + 1) (s', calls @ calls', sync_req \<or> b))"

text \<open>
  \<^verbatim>\<open>PPMDecoder.feed\<close>. The comparison of the integer \<^verbatim>\<open>self._lf\<close> with the float
  \<^verbatim>\<open>-self._rate\<close> is exact in Python.
\<close>

definition feed :: "decoder \<Rightarrow> int list \<Rightarrow> py_error + (decoder \<times> sink_call list)" where
  "feed s data =
     (case feed_loop data 0 (s, [], False) of
        Inl e \<Rightarrow> Inl e
      | Inr (s1, calls, sync_req) \<Rightarrow>
          let calls' = (if sync_req then calls @ [Syn] else calls) in
          case lf s1 of
            None \<Rightarrow> Inr (s1, calls')
          | Some f \<Rightarrow>
              let f' = f - int (length data) in
              if of_int f' < - rate s1 then Inr (s1\<lparr>ch := None, lf := None\<rparr>, calls')
              else Inr (s1\<lparr>lf := Some f'\<rparr>, calls'))"

text \<open>
  The decoders that can exist: built by the constructor, then changed only by calls of
  \<^verbatim>\<open>feed\<close> and \<^verbatim>\<open>signal\<close> that return. A call of \<^verbatim>\<open>signal\<close> that raises has not
  changed the decoder yet, and a call of \<^verbatim>\<open>feed\<close> on such a decoder never raises
  (\<open>feed_returns\<close> below).
\<close>

inductive reachable :: "decoder \<Rightarrow> bool" where
  reachable_init: "init r = Inr (s, calls) \<Longrightarrow> reachable s"
| reachable_feed: "reachable s \<Longrightarrow> feed s data = Inr (s', calls) \<Longrightarrow> reachable s'"
| reachable_signal: "reachable s \<Longrightarrow> signal s w = Inr (s', calls, b) \<Longrightarrow> reachable s'"

text \<open>The falling-edge offset is unset, or negative and no smaller than minus the rate.\<close>

definition lf_in_window :: "decoder \<Rightarrow> bool" where
  "lf_in_window s = (case lf s of None \<Rightarrow> True | Some f \<Rightarrow> - rate s \<le> of_int f \<and> f < 0)"

text \<open>The decoder that \<^verbatim>\<open>PPMDecoder(44100)\<close> builds.\<close>

definition decoder_44100 :: decoder where
  "decoder_44100 =
     \<lparr>rate = 44100, lf = None, threshold = 15000, last_edge = None, ch = None,
      marker = 220, mapping = ppm_mapping\<rparr>"

text \<open>
  The decoder with its falling-edge offset expressed relative to an origin \<open>n\<close> samples
  later, as the subtraction of the block length at the end of \<^verbatim>\<open>feed\<close> does.
\<close>

definition shift_lf :: "int \<Rightarrow> decoder \<Rightarrow> decoder" where
  "shift_lf n s = s\<lparr>lf := map_option (\<lambda>f. f - n) (lf s)\<rparr>"

section \<open>Reading the device declaration and the specification's formula\<close>

text \<open>
  The device library \<^verbatim>\<open>evdev\<close> is not part of the repository. It reads the
  parameter tuple of an \<^verbatim>\<open>EV_ABS\<close> capability as its named tuple \<^verbatim>\<open>AbsInfo\<close>, whose
  fields are, in order, value, min, max, fuzz, flat and resolution; a shorter tuple is
  padded with zeros.
\<close>

record absinfo =
  abs_value :: int
  abs_min :: int
  abs_max :: int
  abs_fuzz :: int
  abs_flat :: int
  abs_resolution :: int

definition absinfo_of :: "int list \<Rightarrow> absinfo" where
  "absinfo_of t =
     (let f = t @ replicate (6 - length t) 0
      in \<lparr>abs_value = f ! 0, abs_min = f ! 1, abs_max = f ! 2, abs_fuzz = f ! 3,
          abs_flat = f ! 4, abs_resolution = f ! 5\<rparr>)"

text \<open>
  The value as the specification words it, \<open>round((w / sample_rate - 0.0007) * 1000 * 255)\<close>,
  in exact arithmetic and rounded to the nearest integer.
\<close>

definition spec_value :: "rat \<Rightarrow> int \<Rightarrow> int" where
  "spec_value r w = round_even ((of_int w / r - 7 / 10000) * 1000 * 255)"

text \<open>
  The decoder built for 44100 Hz once a first frame gap has come in: the block of one high
  sample, 221 low samples and one high sample leaves it synced at channel 0.
\<close>

definition decoder_synced :: decoder where
  "decoder_synced =
     \<lparr>rate = 44100, lf = Some (- 222), threshold = 15000, last_edge = Some True,
      ch = Some 0, marker = 220, mapping = ppm_mapping\<rparr>"

text \<open>
  The marker width is at most 1/64 of the rate (it is 1/200 of it, rounded), with the rate
  a finite float: what keeps the float operations of \<^verbatim>\<open>signal\<close> from overflowing.
\<close>

definition marker_in_range :: "decoder \<Rightarrow> bool" where
  "marker_in_range s =
     (marker s \<le> 0 \<or>
      (\<exists>k. k \<le> 1024 \<and> pow2 (k - 1) \<le> \<bar>rate s\<bar> \<and> of_int (marker s) \<le> pow2 (k - 7)))"

section \<open>Evaluating float operations\<close>

lemma floor_rat_numeral_div:
  "\<lfloor>numeral a / numeral b :: rat\<rfloor> = numeral a div numeral b"
  "\<lfloor>- numeral a / numeral b :: rat\<rfloor> = - numeral a div numeral b"
  "\<lfloor>- (numeral a / numeral b) :: rat\<rfloor> = - numeral a div numeral b"
  using floor_divide_of_int_eq[of "numeral a" "numeral b", where ?'a = rat]
        floor_divide_of_int_eq[of "- numeral a" "numeral b", where ?'a = rat]
  by simp_all

lemma ilog2_numeral:
  "ilog2 0 = 0"
  "ilog2 1 = 0"
  "ilog2 (numeral k) = (if numeral k < (2::int) then 0 else ilog2 (numeral k div 2) + 1)"
  by (simp_all add: ilog2.simps[of 0] ilog2.simps[of 1] ilog2.simps[of "numeral k"])

lemmas fl_eval = fl_def expo_def pow2_def round_even_def ilog2_numeral Let_def floor_rat_numeral_div

lemma float_lit_0007: "float_lit (7 / 10000) = 6456360425798343 / 2 ^ 63"
  by (simp add: float_lit_def fl_eval)

lemma float_0005: "fl (2 * float_lit (25 / 10000)) = Some (5764607523034235 / 2 ^ 60)"
  by (simp add: float_lit_def fl_eval)

lemma py_float_44100: "py_float 44100 = Inr 44100"
  by (simp add: py_float_def fl_eval)

lemma py_float_44: "py_float 44 = Inr 44"
  by (simp add: py_float_def fl_eval)

lemma py_float_220: "py_float 220 = Inr 220"
  by (simp add: py_float_def fl_eval)

lemma pulse_value_44_44100: "pulse_value 44 44100 = Some (667814939961581 / 8796093022208)"
  by (simp add: pulse_value_def float_lit_0007 fl_eval)

lemma pulse_value_220_44100: "pulse_value 220 44100 = Some (300608909927013 / 274877906944)"
  by (simp add: pulse_value_def float_lit_0007 fl_eval)

lemma init_44100:
  "init 44100 = Inr (decoder_44100, [UInput ''ppmadapter''
            [(ABS_X, [0, 5, 255, 0]), (ABS_Y, [0, 5, 255, 0]),
             (ABS_Z, [0, 5, 255, 0]), (ABS_THROTTLE, [0, 5, 255, 0])]
            [(288, ''BTN_JOYSTICK'')]])"
  by (simp add: init_def py_float_def float_lit_def decoder_44100_def ppm_mapping_def py_int_def fl_eval)

section \<open>Bounds on rounded results\<close>

lemma pow2_pos: "0 < pow2 e"
  by (simp add: pow2_def)

lemma pow2_of_nat: "pow2 (int n) = 2 ^ n"
  by (simp add: pow2_def)

lemma pow2_neg: "0 \<le> k \<Longrightarrow> pow2 (- k) = 1 / 2 ^ nat k"
  by (auto simp: pow2_def)

lemma pow2_numeral: "pow2 (numeral n) = 2 ^ numeral n" "pow2 1 = 2" "pow2 0 = 1"
  by (simp_all add: pow2_def)

lemma pow2_add: "pow2 (a + b) = pow2 a * pow2 b"
proof -
  have "pow2 e = 2 powi e" for e
    by (simp add: pow2_def power_int_def field_simps)
  then show ?thesis by (simp add: power_int_add)
qed

lemma pow2_mono: "a \<le> b \<Longrightarrow> pow2 a \<le> pow2 b"
proof -
  assume "a \<le> b"
  then obtain n where b: "b = a + int n" using zle_iff_zadd by auto
  have "(1::rat) \<le> 2 ^ n" by simp
  then show ?thesis
    using pow2_pos[of a] by (simp add: b pow2_add pow2_of_nat)
qed

lemma pow2_less_mono: "a < b \<Longrightarrow> pow2 a < pow2 b"
proof -
  assume "a < b"
  then have "a + 1 \<le> b" by simp
  from pow2_mono[OF this] have "2 * pow2 a \<le> pow2 b"
    by (simp add: pow2_add pow2_numeral)
  with pow2_pos[of a] show ?thesis by linarith
qed

lemma pow2_less_cancel: "pow2 a < pow2 b \<Longrightarrow> a < b"
  using pow2_mono[of b a] by (cases "a < b") auto

lemma ilog2_bounds:
  "1 \<le> n \<Longrightarrow> 0 \<le> ilog2 n \<and> 2 ^ nat (ilog2 n) \<le> n \<and> n < 2 * 2 ^ nat (ilog2 n)"
proof (induction n rule: ilog2.induct)
  case (1 n)
  show ?case
  proof (cases "n < 2")
    case True
    with "1.prems" show ?thesis by (simp add: ilog2.simps[of n])
  next
    case False
    then have h: "1 \<le> n div 2" by simp
    define P :: int where "P = 2 ^ nat (ilog2 (n div 2))"
    from "1.IH"[OF False h] have ih: "0 \<le> ilog2 (n div 2)" "P \<le> n div 2" "n div 2 < 2 * P"
      by (simp_all add: P_def)
    have e: "ilog2 n = ilog2 (n div 2) + 1" using False by (simp add: ilog2.simps[of n])
    have p: "(2::int) ^ nat (ilog2 n) = 2 * P"
      using ih(1) by (simp add: e nat_add_distrib P_def)
    from ih(2,3) have "2 * P \<le> n" "n < 2 * (2 * P)" by arith+
    with ih(1) e show ?thesis unfolding p by simp
  qed
qed

lemma floor_pow2_bounds:
  assumes "1 \<le> (x::rat)"
  shows "0 \<le> ilog2 \<lfloor>x\<rfloor> \<and> 2 ^ nat (ilog2 \<lfloor>x\<rfloor>) \<le> x \<and> x < 2 * 2 ^ nat (ilog2 \<lfloor>x\<rfloor>)"
proof -
  let ?k = "nat (ilog2 \<lfloor>x\<rfloor>)"
  from assms have f: "1 \<le> \<lfloor>x\<rfloor>" by simp
  from ilog2_bounds[OF f] have k: "0 \<le> ilog2 \<lfloor>x\<rfloor>"
    and lo: "2 ^ ?k \<le> \<lfloor>x\<rfloor>" and hi: "\<lfloor>x\<rfloor> < 2 * 2 ^ ?k"
    by simp_all
  from lo have "of_int (2 ^ ?k) \<le> x" by (simp only: le_floor_iff)
  then have l: "(2::rat) ^ ?k \<le> x" by simp
  from hi have "x < of_int (2 * 2 ^ ?k)" by (simp only: floor_less_iff)
  then have u: "x < 2 * 2 ^ ?k" by simp
  from k l u show ?thesis by simp
qed

text \<open>The exponent that \<open>expo\<close> computes is the binary exponent.\<close>

lemma expo_bounds:
  assumes "0 < a"
  shows "pow2 (expo a) \<le> a \<and> a < pow2 (expo a + 1)"
proof (cases "1 \<le> a")
  case True
  from floor_pow2_bounds[OF True] True show ?thesis
    by (simp add: expo_def pow2_def nat_add_distrib)
next
  case False
  with assms have a: "0 < a" "a < 1" by simp_all
  then have "1 \<le> 1 / a" by simp
  define k where "k = ilog2 \<lfloor>1 / a\<rfloor>"
  define P :: rat where "P = 2 ^ nat k"
  from floor_pow2_bounds[OF \<open>1 \<le> 1 / a\<close>] have k: "0 \<le> k" and lo: "P \<le> 1 / a" and hi: "1 / a < 2 * P"
    by (simp_all add: k_def P_def)
  have P: "0 < P" by (simp add: P_def)
  from lo a(1) have l: "a * P \<le> 1" by (simp add: field_simps)
  from hi a(1) have u: "1 < a * (2 * P)" by (simp add: field_simps)
  have pk: "pow2 k = P" using k by (simp add: pow2_def P_def)
  have p0: "pow2 (- k) = 1 / P" using k by (simp add: pow2_neg P_def)
  have p1: "pow2 (- (k + 1)) = 1 / (2 * P)"
    using k pow2_neg[of "k + 1"] by (simp add: P_def nat_add_distrib)
  have p2: "pow2 (- k + 1) = 2 / P"
    using pow2_add[of "- k" 1] p0 by (simp add: pow2_def)
  show ?thesis
  proof (cases "a * P = 1")
    case True
    then have e: "expo a = - k"
      using False by (simp add: expo_def Let_def pk k_def[symmetric])
    from True P have aP: "1 / P = a" by (simp add: field_simps)
    have v1: "pow2 (- k) = a" using p0 aP by simp
    have v2: "pow2 (- k + 1) = 2 * a" using p2 aP by simp
    show ?thesis unfolding e v1 v2 using a by simp
  next
    case ne: False
    then have e: "expo a = - (k + 1)"
      using False by (simp add: expo_def Let_def pk k_def[symmetric])
    have e1: "expo a + 1 = - k" by (simp add: e)
    from ne l have "a * P < 1" by simp
    with P have hi': "a < 1 / P" by (simp add: field_simps)
    from u P have lo': "1 / (2 * P) < a" by (simp add: field_simps)
    from lo' hi' show ?thesis unfolding e1 p0 unfolding e p1 by simp
  qed
qed

lemma expo_le:
  assumes "0 < a" and "a \<le> pow2 k"
  shows "expo a \<le> k"
proof (rule ccontr)
  assume "\<not> expo a \<le> k"
  then have "k < expo a" by simp
  from pow2_less_mono[OF this] expo_bounds[OF assms(1)] assms(2) show False by linarith
qed

lemma expo_ge:
  assumes "0 < a" and "pow2 k \<le> a"
  shows "k \<le> expo a"
proof -
  from expo_bounds[OF assms(1)] assms(2) have "pow2 k < pow2 (expo a + 1)" by linarith
  from pow2_less_cancel[OF this] show ?thesis by simp
qed

lemma round_even_le:
  assumes "x \<le> of_int n"
  shows "round_even x \<le> n"
proof -
  have f: "\<lfloor>x\<rfloor> \<le> n" using assms by (simp add: floor_le_iff)
  show ?thesis
  proof (cases "\<lfloor>x\<rfloor> = n")
    case True
    then have "x = of_int n" using assms by linarith
    then show ?thesis by (simp add: round_even_def)
  next
    case False
    with f have "\<lfloor>x\<rfloor> + 1 \<le> n" by simp
    then show ?thesis by (simp add: round_even_def Let_def)
  qed
qed

lemma round_even_ge:
  assumes "of_int n \<le> x"
  shows "n \<le> round_even x"
proof -
  have "n \<le> \<lfloor>x\<rfloor>" using assms by (simp add: le_floor_iff)
  then show ?thesis by (simp add: round_even_def Let_def)
qed

lemma fl_finite:
  assumes "fl x = Some y"
  shows "\<bar>y\<bar> < pow2 1024"
  using assms pow2_pos[of 1024]
  by (auto simp: fl_def Let_def split: if_splits)

text \<open>A result bounded by a power of two rounds to a float within the same bound.\<close>

lemma fl_bounded:
  assumes "\<bar>x\<bar> \<le> pow2 k" and "- 1074 \<le> k" and "k < 1024"
  shows "\<exists>y. fl x = Some y \<and> \<bar>y\<bar> \<le> pow2 k"
proof (cases "x = 0")
  case True
  then show ?thesis using pow2_pos[of k] by (simp add: fl_def)
next
  case False
  define e where "e = max (expo \<bar>x\<bar>) (- 1022)"
  define u where "u = pow2 (e - 52)"
  define y where "y = of_int (round_even (x / u)) * u"
  from False have pos: "0 < \<bar>x\<bar>" by simp
  have u: "0 < u" by (simp add: u_def pow2_pos)
  from expo_le[OF pos assms(1)] assms(2) have "e - 52 \<le> k" by (simp add: e_def)
  then obtain n where n: "k = (e - 52) + int n" using zle_iff_zadd by auto
  have pk: "pow2 k = u * of_int (2 ^ n)"
    by (simp add: n pow2_add pow2_of_nat u_def)
  from assms(1) have "x \<le> of_int (2 ^ n) * u" "- (of_int (2 ^ n) * u) \<le> x"
    by (auto simp: pk abs_le_iff mult.commute)
  with u have "x / u \<le> of_int (2 ^ n)" "of_int (- (2 ^ n)) \<le> x / u"
    by (simp_all add: field_simps)
  from round_even_le[OF this(1)] round_even_ge[OF this(2)]
  have "\<bar>round_even (x / u)\<bar> \<le> 2 ^ n" by simp
  then have "\<bar>of_int (round_even (x / u)) :: rat\<bar> \<le> of_int (2 ^ n)"
    by (metis of_int_abs of_int_le_iff)
  with u have yb: "\<bar>y\<bar> \<le> pow2 k"
    by (simp add: y_def pk abs_mult mult.commute mult_left_mono)
  from pow2_less_mono[OF assms(3)] yb have "\<bar>y\<bar> < pow2 1024" by linarith
  then have "fl x = Some y"
    using False by (simp add: fl_def Let_def e_def[symmetric] u_def[symmetric] y_def[symmetric])
  with yb show ?thesis by simp
qed

text \<open>A float cannot round below a power of two that the exact result reaches.\<close>

lemma fl_lower:
  assumes "pow2 k \<le> \<bar>x\<bar>" and "- 1022 \<le> k" and "fl x = Some y"
  shows "pow2 k \<le> \<bar>y\<bar>"
proof -
  from assms(1) pow2_pos[of k] have pos: "0 < \<bar>x\<bar>" and nz: "x \<noteq> 0" by auto
  define e where "e = expo \<bar>x\<bar>"
  define u where "u = pow2 (e - 52)"
  from expo_ge[OF pos assms(1)] have ke: "k \<le> e" by (simp add: e_def)
  with assms(2) have m: "max (expo \<bar>x\<bar>) (- 1022) = e" by (simp add: e_def)
  have u: "0 < u" by (simp add: u_def pow2_pos)
  have pe: "pow2 e = u * of_int (2 ^ 52)"
    using pow2_add[of "e - 52" 52] by (simp add: u_def pow2_numeral)
  from assms(3) nz have y: "y = of_int (round_even (x / u)) * u"
    by (auto simp: fl_def Let_def m u_def split: if_splits)
  from expo_bounds[OF pos] have "pow2 e \<le> \<bar>x\<bar>" by (simp add: e_def)
  then have ax: "of_int (2 ^ 52) * u \<le> \<bar>x\<bar>" by (simp add: pe mult.commute)
  have "2 ^ 52 \<le> \<bar>round_even (x / u)\<bar>"
  proof (cases "0 \<le> x")
    case True
    with ax u have "of_int (2 ^ 52) \<le> x / u" by (simp add: field_simps)
    from round_even_ge[OF this] show ?thesis by simp
  next
    case False
    with ax have "x \<le> - (of_int (2 ^ 52) * u)" by simp
    with u have "x / u \<le> of_int (- (2 ^ 52))" by (simp add: field_simps)
    from round_even_le[OF this] show ?thesis by simp
  qed
  then have "(of_int (2 ^ 52) :: rat) \<le> \<bar>of_int (round_even (x / u))\<bar>"
    by (metis of_int_abs of_int_le_iff)
  with u have "pow2 e \<le> \<bar>y\<bar>"
    by (simp add: y pe abs_mult mult.commute mult_left_mono)
  with pow2_mono[OF ke] show ?thesis by linarith
qed

text \<open>\<^verbatim>\<open>int\<close> truncates toward zero.\<close>

lemma py_int_truncates:
  "\<bar>of_int (py_int x)\<bar> \<le> \<bar>x\<bar> \<and> \<bar>x\<bar> < \<bar>of_int (py_int x)\<bar> + 1 \<and> 0 \<le> of_int (py_int x) * x"
proof (cases "0 \<le> x")
  case True
  then have "0 \<le> \<lfloor>x\<rfloor>" by simp
  with True show ?thesis
    by (simp add: py_int_def) linarith
next
  case False
  then have "\<lceil>x\<rceil> \<le> 0" by (simp add: ceiling_le_zero)
  moreover have "of_int \<lceil>x\<rceil> - 1 < x" "x \<le> of_int \<lceil>x\<rceil>" by linarith+
  ultimately show ?thesis
    using False by (simp add: py_int_def mult_nonpos_nonpos)
qed

section \<open>What the calls can do\<close>

lemma init_fields:
  assumes "init r = Inr (s, calls)"
  shows "lf s = None \<and> last_edge s = None \<and> ch s = None \<and> threshold s = 15000 \<and>
         mapping s = ppm_mapping"
  using assms by (auto simp: init_def Let_def split: sum.splits option.splits)

lemma ppm_mapping_outside:
  assumes "int (length ppm_mapping) \<le> k"
  shows "map_of ppm_mapping k = None"
  using assms by (simp add: ppm_mapping_def)

lemma signal_result:
  assumes "signal s w = Inr (s', calls, b)"
  shows "(calls = [] \<and> \<not> b) \<or> (\<exists>axis v. calls = [Write axis v] \<and> b)"
  using assms
  by (auto simp: signal_def split: if_splits option.splits sum.splits)

lemma signal_fields:
  assumes "signal s w = Inr (s', calls, b)"
  shows "rate s' = rate s \<and> lf s' = lf s \<and> threshold s' = threshold s \<and>
         last_edge s' = last_edge s \<and> marker s' = marker s \<and> mapping s' = mapping s"
  using assms
  by (auto simp: signal_def split: if_splits option.splits sum.splits)

lemma feed_step_result:
  assumes "feed_step s i x = Inr (s', calls, b)"
  shows "(calls = [] \<and> \<not> b) \<or> (\<exists>axis v. calls = [Write axis v] \<and> b)"
  using assms
  by (auto simp: feed_step_def Let_def split: if_splits option.splits sum.splits
        dest!: signal_result)

lemma feed_step_fields:
  assumes "feed_step s i x = Inr (s', calls, b)"
  shows "rate s' = rate s \<and> threshold s' = threshold s \<and> marker s' = marker s \<and> mapping s' = mapping s"
  using assms
  by (auto simp: feed_step_def Let_def split: if_splits option.splits sum.splits dest!: signal_fields)

lemma feed_loop_fields:
  assumes "feed_loop data i (s, calls, b) = Inr (s', calls', b')"
  shows "rate s' = rate s \<and> threshold s' = threshold s \<and> marker s' = marker s \<and> mapping s' = mapping s"
  using assms
proof (induction data arbitrary: i s calls b)
  case Nil
  then show ?case by simp
next
  case (Cons x xs)
  then obtain s1 c1 b1 where step: "feed_step s i x = Inr (s1, c1, b1)"
    and rest: "feed_loop xs (i + 1) (s1, calls @ c1, b \<or> b1) = Inr (s', calls', b')"
    by (auto split: sum.splits)
  from Cons.IH[OF rest] feed_step_fields[OF step] show ?case by simp
qed

text \<open>The calls and the flag only accumulate.\<close>

lemma feed_loop_acc:
  "feed_loop data i (s, calls, b) =
     (case feed_loop data i (s, [], False) of
        Inl e \<Rightarrow> Inl e
      | Inr (s', calls', b') \<Rightarrow> Inr (s', calls @ calls', b \<or> b'))"
proof (induction data arbitrary: i s calls b)
  case Nil
  then show ?case by simp
next
  case (Cons x xs)
  show ?case
  proof (cases "feed_step s i x")
    case (Inl e)
    then show ?thesis by simp
  next
    case (Inr t)
    obtain s1 c1 b1 where t: "t = (s1, c1, b1)" by (cases t)
    show ?thesis
      using Inr t Cons.IH[of "i + 1" s1 "calls @ c1" "b \<or> b1"] Cons.IH[of "i + 1" s1 "c1" "b1"]
      by (auto split: sum.splits)
  qed
qed

text \<open>In a loop that returns, every call is a write, and the flag says whether there is one.\<close>

lemma feed_loop_writes:
  assumes "feed_loop data i (s, [], False) = Inr (s', calls, b)"
  shows "(\<forall>c \<in> set calls. \<exists>axis v. c = Write axis v) \<and> (b \<longleftrightarrow> calls \<noteq> [])"
  using assms
proof (induction data arbitrary: i s s' calls b)
  case Nil
  then show ?case by simp
next
  case (Cons x xs)
  from Cons.prems obtain s1 c1 b1 where step: "feed_step s i x = Inr (s1, c1, b1)"
    and rest: "feed_loop xs (i + 1) (s1, c1, b1) = Inr (s', calls, b)"
    by (auto split: sum.splits)
  from rest obtain c2 b2 where r2: "feed_loop xs (i + 1) (s1, [], False) = Inr (s', c2, b2)"
    and eq: "calls = c1 @ c2" "b = (b1 \<or> b2)"
    by (subst (asm) feed_loop_acc) (auto split: sum.splits)
  from Cons.IH[OF r2] feed_step_result[OF step] eq show ?case by auto
qed

lemma feed_calls_syn:
  assumes "feed s data = Inr (s', calls)"
  shows "length (filter (\<lambda>c. c = Syn) calls) \<le> 1 \<and>
         (Syn \<in> set calls \<longleftrightarrow> (\<exists>axis v. Write axis v \<in> set calls))"
proof -
  from assms obtain s1 c b where loop: "feed_loop data 0 (s, [], False) = Inr (s1, c, b)"
    and calls: "calls = (if b then c @ [Syn] else c)"
    by (auto simp: feed_def Let_def split: sum.splits option.splits if_splits)
  from feed_loop_writes[OF loop] have w: "\<forall>x \<in> set c. \<exists>axis v. x = Write axis v"
    and b: "b \<longleftrightarrow> c \<noteq> []" by simp_all
  from w have nosyn: "filter (\<lambda>c. c = Syn) c = []" "Syn \<notin> set c"
    by (auto simp: filter_empty_conv)
  show ?thesis
  proof (cases b)
    case True
    with b obtain x xs where "c = x # xs" by (cases c) auto
    with w obtain axis v where "Write axis v \<in> set c" by auto
    with True calls nosyn show ?thesis by auto
  next
    case False
    with b calls nosyn show ?thesis by simp
  qed
qed

text \<open>A run of low samples after a low sample changes nothing.\<close>

lemma feed_loop_low_run:
  assumes "last_edge s = Some False" and "x \<le> threshold s"
  shows "feed_loop (replicate n x @ rest) i (s, calls, b) = feed_loop rest (i + int n) (s, calls, b)"
proof (induction n arbitrary: i)
  case 0
  then show ?case by simp
next
  case (Suc n)
  have "s\<lparr>last_edge := Some False\<rparr> = s" using assms(1) by simp
  then have step: "feed_step s i x = Inr (s, [], False)"
    using assms by (simp add: feed_step_def)
  have e: "i + 1 + int n = i + int (Suc n)" by simp
  show ?case using Suc.IH[of "i + 1"] step unfolding e by simp
qed

lemma feed_loop_low_run_end:
  assumes "last_edge s = Some False" and "x \<le> threshold s"
  shows "feed_loop (replicate n x) i (s, calls, b) = Inr (s, calls, b)"
  using feed_loop_low_run[OF assms, of n "[]" i calls b] by simp

lemma feed_loop_append:
  "feed_loop (a @ b) i acc =
     (case feed_loop a i acc of
        Inl e \<Rightarrow> Inl e
      | Inr acc' \<Rightarrow> feed_loop b (i + int (length a)) acc')"
proof (induction a arbitrary: i acc)
  case Nil
  then show ?case by simp
next
  case (Cons x xs)
  obtain s calls sync where acc: "acc = (s, calls, sync)" by (cases acc)
  show ?case
  proof (cases "feed_step s i x")
    case (Inl e)
    with acc show ?thesis by simp
  next
    case (Inr t)
    obtain s1 c1 b1 where t: "t = (s1, c1, b1)" by (cases t)
    have e: "i + int (length (x # xs)) = i + 1 + int (length xs)" by simp
    show ?thesis
      unfolding e using Inr t acc Cons.IH[of "i + 1" "(s1, calls @ c1, sync \<or> b1)"]
      by simp
  qed
qed

section \<open>The falling-edge offset of a reachable decoder\<close>

lemma feed_step_lf:
  assumes "feed_step s i x = Inr (s', calls, b)"
  shows "lf s' = lf s \<or> lf s' = Some i"
  using assms
  by (auto simp: feed_step_def Let_def split: if_splits option.splits sum.splits
        dest!: signal_fields)

lemma feed_loop_lf:
  assumes "feed_loop data i (s, calls, b) = Inr (s', calls', b')"
  shows "lf s' = lf s \<or> (\<exists>j. lf s' = Some j \<and> i \<le> j \<and> j < i + int (length data))"
  using assms
proof (induction data arbitrary: i s calls b)
  case Nil
  then show ?case by simp
next
  case (Cons x xs)
  then obtain s1 c1 b1 where step: "feed_step s i x = Inr (s1, c1, b1)"
    and rest: "feed_loop xs (i + 1) (s1, calls @ c1, b \<or> b1) = Inr (s', calls', b')"
    by (auto split: sum.splits)
  from Cons.IH[OF rest] feed_step_lf[OF step] show ?case by auto
qed

lemma feed_lf_in_window:
  assumes "lf_in_window s" and "feed s data = Inr (s', calls)"
  shows "lf_in_window s'"
proof -
  from assms(2) obtain s1 c b where loop: "feed_loop data 0 (s, [], False) = Inr (s1, c, b)"
    by (auto simp: feed_def split: sum.splits)
  from feed_loop_fields[OF loop] have rate: "rate s1 = rate s" by simp
  from feed_loop_lf[OF loop]
  have lf1: "lf s1 = lf s \<or> (\<exists>j. lf s1 = Some j \<and> 0 \<le> j \<and> j < int (length data))" by simp
  show ?thesis
  proof (cases "lf s1")
    case None
    with assms(2) loop show ?thesis
      by (auto simp: feed_def Let_def lf_in_window_def)
  next
    case (Some f)
    with lf1 assms(1) have neg: "f - int (length data) < 0"
      by (auto simp: lf_in_window_def split: option.splits)
    from assms(2) loop Some neg show ?thesis
      by (auto simp: feed_def Let_def lf_in_window_def split: if_splits)
  qed
qed

lemma reachable_lf_in_window:
  assumes "reachable s"
  shows "lf_in_window s"
  using assms
proof (induction rule: reachable.induct)
  case (reachable_init r s calls)
  then show ?case by (simp add: lf_in_window_def init_fields)
next
  case (reachable_feed s data s' calls)
  then show ?case by (simp add: feed_lf_in_window)
next
  case (reachable_signal s w s' calls b)
  from signal_fields[OF reachable_signal.hyps(2)] reachable_signal.IH
  show ?case by (auto simp: lf_in_window_def split: option.splits)
qed

section \<open>Calls that cannot raise\<close>

lemma pulse_value_returns:
  assumes "\<bar>fw\<bar> \<le> pow2 (k - 7)" and "pow2 (k - 1) \<le> \<bar>r\<bar>"
  shows "\<exists>x. pulse_value fw r = Some x"
proof -
  have split: "pow2 (k - 7) = pow2 (k - 1) * pow2 (- 6)"
    using pow2_add[of "k - 1" "- 6"] by simp
  have p6: "pow2 (- 6) = 1 / 64" and p5: "pow2 (- 5) = 1 / 32"
    and p5': "pow2 5 = 32" and p13: "pow2 13 = 8192"
    by (simp_all add: pow2_def)
  from assms(2) pow2_pos[of "k - 1"] have r: "0 < \<bar>r\<bar>" by linarith
  have "pow2 (k - 1) * pow2 (- 6) \<le> \<bar>r\<bar> * pow2 (- 6)"
    using assms(2) pow2_pos[of "- 6"] by (simp add: mult_right_mono)
  with assms(1) have "\<bar>fw\<bar> \<le> \<bar>r\<bar> * pow2 (- 6)"
    unfolding split by linarith
  with r have "\<bar>fw / r\<bar> \<le> pow2 (- 6)"
    by (simp add: abs_divide field_simps)
  from fl_bounded[OF this] obtain d where d: "fl (fw / r) = Some d" "\<bar>d\<bar> \<le> pow2 (- 6)"
    by auto
  have c7: "0 \<le> float_lit (7 / 10000)" "float_lit (7 / 10000) \<le> 1 / 64"
    by (simp_all add: float_lit_0007)
  have "\<bar>d - float_lit (7 / 10000)\<bar> \<le> pow2 (- 5)"
    using d(2) c7 unfolding p6 p5 by linarith
  from fl_bounded[OF this] obtain a where a: "fl (d - float_lit (7 / 10000)) = Some a"
    "\<bar>a\<bar> \<le> pow2 (- 5)"
    by auto
  have "\<bar>a * 1000\<bar> \<le> pow2 5"
    using a(2) by (simp add: p5 p5' abs_mult)
  from fl_bounded[OF this] obtain b where b: "fl (a * 1000) = Some b" "\<bar>b\<bar> \<le> pow2 5"
    by auto
  have "\<bar>b * 255\<bar> \<le> pow2 13"
    using b(2) by (simp add: p5' p13 abs_mult)
  from fl_bounded[OF this] obtain x where x: "fl (b * 255) = Some x"
    by auto
  from d(1) a(1) b(1) x show ?thesis
    by (simp add: pulse_value_def)
qed

lemma signal_returns:
  assumes "marker_in_range s" and "1 \<le> w"
  shows "\<exists>s' calls b. signal s w = Inr (s', calls, b)"
proof (cases "marker s < w")
  case True
  then show ?thesis by (auto simp: signal_def)
next
  case False
  with assms(2) have m: "1 \<le> marker s" "w \<le> marker s" by simp_all
  with assms(1) obtain k where k: "k \<le> 1024" "pow2 (k - 1) \<le> \<bar>rate s\<bar>"
    "of_int (marker s) \<le> pow2 (k - 7)"
    by (auto simp: marker_in_range_def)
  from m(1) have "(1::rat) \<le> of_int (marker s)" by simp
  with k(3) have "pow2 0 \<le> pow2 (k - 7)" by (simp add: pow2_def)
  then have k7: "0 \<le> k - 7" using pow2_less_mono[of "k - 7" 0] by (cases "0 \<le> k - 7") auto
  from assms(2) m(2) have "\<bar>of_int w :: rat\<bar> \<le> of_int (marker s)" by simp
  with k(3) have "\<bar>of_int w :: rat\<bar> \<le> pow2 (k - 7)" by linarith
  from fl_bounded[OF this] k7 k(1) obtain fw where fw: "fl (of_int w) = Some fw"
    "\<bar>fw\<bar> \<le> pow2 (k - 7)"
    by auto
  from pulse_value_returns[OF fw(2) k(2)] obtain x where x: "pulse_value fw (rate s) = Some x"
    by blast
  from k(2) pow2_pos[of "k - 1"] have "rate s \<noteq> 0" by auto
  with fw(1) x show ?thesis
    by (auto simp: signal_def py_float_def split: option.splits)
qed

lemma init_marker_in_range:
  assumes "init r = Inr (s, calls)"
  shows "marker_in_range s"
proof -
  from assms obtain fr m where fr: "fl (of_int r) = Some fr"
    and m: "fl (5764607523034235 / 2 ^ 60 * fr) = Some m"
    and s: "rate s = fr" "marker s = py_int m"
    unfolding init_def float_0005 py_float_def
    by (auto simp: Let_def split: option.splits)
  show ?thesis
  proof (cases "marker s \<le> 0")
    case True
    then show ?thesis by (simp add: marker_in_range_def)
  next
    case False
    then have "1 \<le> py_int m" using s by simp
    have "r \<noteq> 0"
    proof
      assume "r = 0"
      with fr have "fr = 0" by (simp add: fl_def)
      with m have "m = 0" by (simp add: fl_def)
      with \<open>1 \<le> py_int m\<close> show False by (simp add: py_int_def)
    qed
    then have "pow2 0 \<le> \<bar>of_int r :: rat\<bar>"
      by (simp add: pow2_def)
    from fl_lower[OF this _ fr] have fr1: "pow2 0 \<le> \<bar>fr\<bar>" by simp
    then have pos: "0 < \<bar>fr\<bar>" using pow2_pos[of 0] by linarith
    define k where "k = expo \<bar>fr\<bar> + 1"
    from expo_bounds[OF pos] have eb: "pow2 (k - 1) \<le> \<bar>fr\<bar>" "\<bar>fr\<bar> < pow2 k"
      by (simp_all add: k_def)
    from expo_ge[OF pos fr1] have k1: "1 \<le> k" by (simp add: k_def)
    from eb(1) fl_finite[OF fr] have "pow2 (k - 1) < pow2 1024" by linarith
    from pow2_less_cancel[OF this] have k2: "k \<le> 1024" by simp
    have c: "(5764607523034235 / 2 ^ 60 :: rat) \<le> pow2 (- 7)" "(0::rat) \<le> 5764607523034235 / 2 ^ 60"
      by (simp_all add: pow2_def)
    have "\<bar>5764607523034235 / 2 ^ 60 * fr\<bar> \<le> pow2 (- 7) * pow2 k"
      using mult_mono[OF c(1) less_imp_le[OF eb(2)]] pow2_pos[of "- 7"]
      by (simp add: abs_mult)
    then have "\<bar>5764607523034235 / 2 ^ 60 * fr\<bar> \<le> pow2 (k - 7)"
      using pow2_add[of "- 7" k] by simp
    from fl_bounded[OF this] k1 k2 m have mb: "\<bar>m\<bar> \<le> pow2 (k - 7)" by auto
    from py_int_truncates[of m] \<open>1 \<le> py_int m\<close> have "of_int (py_int m) \<le> \<bar>m\<bar>" by simp
    with mb have "of_int (marker s) \<le> pow2 (k - 7)" using s by simp
    with k2 eb(1) s show ?thesis by (auto simp: marker_in_range_def)
  qed
qed

lemma marker_in_range_cong:
  assumes "rate s' = rate s" and "marker s' = marker s" and "marker_in_range s"
  shows "marker_in_range s'"
  using assms by (simp add: marker_in_range_def)

lemma reachable_marker_in_range:
  assumes "reachable s"
  shows "marker_in_range s"
  using assms
proof (induction rule: reachable.induct)
  case (reachable_init r s calls)
  then show ?case by (rule init_marker_in_range)
next
  case (reachable_feed s data s' calls)
  from reachable_feed.hyps(2) obtain s1 c b where
    loop: "feed_loop data 0 (s, [], False) = Inr (s1, c, b)"
    and "rate s' = rate s1 \<and> marker s' = marker s1"
    by (auto simp: feed_def Let_def split: sum.splits option.splits if_splits)
  with feed_loop_fields[OF loop] reachable_feed.IH show ?case
    by (auto intro: marker_in_range_cong)
next
  case (reachable_signal s w s' calls b)
  from signal_fields[OF reachable_signal.hyps(2)] reachable_signal.IH show ?case
    by (auto intro: marker_in_range_cong)
qed

lemma feed_step_returns:
  assumes "marker_in_range s" and "\<forall>f. lf s = Some f \<longrightarrow> f < i"
  shows "\<exists>s' calls b. feed_step s i x = Inr (s', calls, b) \<and> marker_in_range s' \<and>
           (\<forall>f. lf s' = Some f \<longrightarrow> f < i + 1)"
proof -
  have "\<exists>s' calls b. feed_step s i x = Inr (s', calls, b)"
  proof (cases "lf s")
    case None
    then show ?thesis by (auto simp: feed_step_def Let_def split: option.splits)
  next
    case (Some f)
    with assms(2) have "1 \<le> i - f" by simp
    from signal_returns[OF assms(1) this] obtain s1 c1 b1 where
      "signal s (i - f) = Inr (s1, c1, b1)" by blast
    with Some show ?thesis by (auto simp: feed_step_def Let_def split: option.splits)
  qed
  then obtain s' calls b where r: "feed_step s i x = Inr (s', calls, b)" by blast
  from feed_step_fields[OF r] assms(1) have "marker_in_range s'"
    by (auto intro: marker_in_range_cong)
  moreover from feed_step_lf[OF r] assms(2)
  have "\<forall>f. lf s' = Some f \<longrightarrow> f < i + 1" by auto
  ultimately show ?thesis using r by simp
qed

lemma feed_loop_returns:
  assumes "marker_in_range s" and "\<forall>f. lf s = Some f \<longrightarrow> f < i"
  shows "\<exists>r. feed_loop data i (s, calls, b) = Inr r"
  using assms
proof (induction data arbitrary: i s calls b)
  case Nil
  then show ?case by simp
next
  case (Cons x xs)
  from feed_step_returns[OF Cons.prems] obtain s' c' b' where
    step: "feed_step s i x = Inr (s', c', b')" and inv: "marker_in_range s'"
    "\<forall>f. lf s' = Some f \<longrightarrow> f < i + 1"
    by blast
  from Cons.IH[OF inv] step show ?case by simp
qed

text \<open>
  A call of \<^verbatim>\<open>feed\<close> on a decoder that the constructor and returning calls have produced
  raises no error, whatever the block.
\<close>

lemma feed_returns:
  assumes "reachable s"
  shows "\<exists>s' calls. feed s data = Inr (s', calls)"
proof -
  from reachable_lf_in_window[OF assms] have "\<forall>f. lf s = Some f \<longrightarrow> f < 0"
    by (auto simp: lf_in_window_def)
  from feed_loop_returns[OF reachable_marker_in_range[OF assms] this]
  obtain r where "feed_loop data 0 (s, [], False) = Inr r" by blast
  then show ?thesis
    by (cases r) (auto simp: feed_def Let_def split: option.splits)
qed

section \<open>Decoders used as examples\<close>

lemma replicate_unfold:
  "replicate 44101 (0::int) = 0 # replicate 44100 0"
  "replicate 221 (0::int) = 0 # replicate 220 0"
  "replicate 44 (0::int) = 0 # replicate 43 0"
  by (simp_all add: replicate_Suc[symmetric] del: replicate_Suc)

lemmas feed_eval = feed_def feed_step_def signal_def decoder_44100_def ppm_mapping_def
  feed_loop_low_run feed_loop_low_run_end

lemma feed_44100_gap:
  "feed decoder_44100 (20000 # replicate 221 0 @ [20000]) = Inr (decoder_synced, [])"
  by (simp add: replicate_unfold feed_eval decoder_synced_def)

lemma reachable_44100: "reachable decoder_44100"
  using reachable_init[OF init_44100] .

lemma reachable_synced: "reachable decoder_synced"
  using reachable_feed[OF reachable_44100 feed_44100_gap] .

lemma signal_synced_44:
  "signal decoder_synced 44 = Inr (decoder_synced\<lparr>ch := Some 1\<rparr>, [Write ABS_X 75], True)"
  by (simp add: signal_def decoder_synced_def ppm_mapping_def py_float_44 pulse_value_44_44100
        py_int_def floor_rat_numeral_div)

lemma signal_synced_220:
  "signal decoder_synced 220 = Inr (decoder_synced\<lparr>ch := Some 1\<rparr>, [Write ABS_X 1093], True)"
  by (simp add: signal_def decoder_synced_def ppm_mapping_def py_float_220 pulse_value_220_44100
        py_int_def floor_rat_numeral_div)

lemma feed_synced_pulse:
  "feed decoder_synced (replicate 44 0 @ [20000]) =
     Inr (decoder_synced\<lparr>ch := Some 1, lf := Some (- 45)\<rparr>, [Write ABS_X 75, Syn])"
  by (simp add: replicate_unfold feed_def feed_step_def signal_def decoder_synced_def
        ppm_mapping_def feed_loop_low_run py_float_44 pulse_value_44_44100 py_int_def
        floor_rat_numeral_div)

section \<open>Shifting the origin of the sample index\<close>

lemma shift_lf_fields [simp]:
  "rate (shift_lf n s) = rate s" "threshold (shift_lf n s) = threshold s"
  "last_edge (shift_lf n s) = last_edge s" "ch (shift_lf n s) = ch s"
  "marker (shift_lf n s) = marker s" "mapping (shift_lf n s) = mapping s"
  "lf (shift_lf n s) = map_option (\<lambda>f. f - n) (lf s)"
  by (simp_all add: shift_lf_def)

lemma shift_lf_unset:
  assumes "lf s = None"
  shows "shift_lf n s = s"
  using assms by (simp add: shift_lf_def)

lemma signal_shift:
  "signal (shift_lf n s) w =
     (case signal s w of Inl e \<Rightarrow> Inl e | Inr (s', calls, b) \<Rightarrow> Inr (shift_lf n s', calls, b))"
  by (auto simp: signal_def shift_lf_def split: option.splits sum.splits)

lemma feed_step_shift:
  "feed_step (shift_lf n s) i x =
     (case feed_step s (i + n) x of
        Inl e \<Rightarrow> Inl e
      | Inr (s', calls, b) \<Rightarrow> Inr (shift_lf n s', calls, b))"
proof (cases "lf s")
  case None
  then show ?thesis
    by (auto simp: feed_step_def Let_def shift_lf_def split: option.splits)
next
  case (Some f)
  have w: "i - (f - n) = i + n - f" by simp
  show ?thesis
    using Some
    by (auto simp: feed_step_def Let_def signal_shift w split: option.splits sum.splits)
qed

lemma feed_loop_shift:
  "feed_loop data i (shift_lf n s, calls, b) =
     (case feed_loop data (i + n) (s, calls, b) of
        Inl e \<Rightarrow> Inl e
      | Inr (s', calls', b') \<Rightarrow> Inr (shift_lf n s', calls', b'))"
proof (induction data arbitrary: i s calls b)
  case Nil
  then show ?case by simp
next
  case (Cons x xs)
  show ?case
  proof (cases "feed_step s (i + n) x")
    case (Inl e)
    then show ?thesis by (simp add: feed_step_shift)
  next
    case (Inr t)
    obtain s1 c1 b1 where t: "t = (s1, c1, b1)" by (cases t)
    have e: "i + 1 + n = i + n + 1" by simp
    show ?thesis
      using Inr t Cons.IH[of "i + 1" s1 "calls @ c1" "b \<or> b1"]
      unfolding e by (simp add: feed_step_shift)
  qed
qed

section \<open>The frame decoder: \<^verbatim>\<open>signal\<close>\<close>

text \<open>
  Claim C1, as stated, fails at a width equal to the marker width. The decoder built for
  44100 Hz has a marker width of 220. A pulse of width 220 leaves the unsynced decoder
  unsynced, and makes the decoder synced at channel 0 write the axis value 1093, advance
  to channel 1 and request a sync flush: the source tests \<^verbatim>\<open>w > self._marker\<close>.
\<close>

theorem signal_at_marker_counterexample:
  "marker decoder_44100 \<le> 220 \<and> ch decoder_44100 = None \<and>
   signal decoder_44100 220 = Inr (decoder_44100, [], False) \<and>
   marker decoder_synced \<le> 220 \<and>
   signal decoder_synced 220 = Inr (decoder_synced\<lparr>ch := Some 1\<rparr>, [Write ABS_X 1093], True)"
  using signal_synced_220 by (simp add: signal_def decoder_44100_def decoder_synced_def)

text \<open>
  Claim C1, amended: for every pulse width strictly greater than the marker width, whatever
  the prior state, \<^verbatim>\<open>signal\<close> goes to channel 0, writes no axis and does not request a
  sync flush.
\<close>

theorem signal_beyond_marker:
  assumes "marker s < w"
  shows "signal s w = Inr (s\<lparr>ch := Some 0\<rparr>, [], False)"
  using assms by (simp add: signal_def)

theorem signal_beyond_marker_witness:
  "marker decoder_44100 < 221 \<and>
   signal decoder_44100 221 = Inr (decoder_44100\<lparr>ch := Some 0\<rparr>, [], False)"
proof -
  have h: "marker decoder_44100 < 221" by (simp add: decoder_44100_def)
  from signal_beyond_marker[OF h] h show ?thesis by simp
qed

text \<open>
  Claim C2, as stated, fails: at 44100 Hz the decoder synced at channel 0 that receives a
  pulse of width 44 writes 75 to \<^verbatim>\<open>ABS_X\<close>, while the specification's formula, rounding
  75.92 to the nearest integer, gives 76. The source converts with \<^verbatim>\<open>int\<close>, which
  truncates.
\<close>

theorem signal_value_counterexample:
  "44 < marker decoder_synced \<and> ch decoder_synced = Some 0 \<and>
   signal decoder_synced 44 = Inr (decoder_synced\<lparr>ch := Some 1\<rparr>, [Write ABS_X 75], True) \<and>
   spec_value (rate decoder_synced) 44 = 76"
proof -
  have "spec_value 44100 44 = 76"
    by (simp add: spec_value_def round_even_def floor_rat_numeral_div)
  then show ?thesis
    using signal_synced_44 by (simp add: decoder_synced_def)
qed

text \<open>
  Claim C2, amended: for a pulse of width \<open>w\<close> from 1 to below the marker width, with a
  reachable decoder synced at a channel \<open>k\<close> of the mapping, \<^verbatim>\<open>signal\<close> returns and writes
  to the axis bound to \<open>k\<close> the float \<^verbatim>\<open>(float(w) / rate - 0.0007) * 1000 * 255\<close>
  truncated toward zero: the written integer \<open>v\<close> has the sign of that float \<open>x\<close> and
  \<open>\<bar>v\<bar> \<le> \<bar>x\<bar> < \<bar>v\<bar> + 1\<close>. The channel index advances by one and a sync flush is
  requested.
\<close>

theorem signal_writes_truncated_value:
  assumes "reachable s" and "1 \<le> w" and "w < marker s"
    and "ch s = Some k" and "map_of (mapping s) k = Some axis"
  shows "\<exists>fw x v. py_float w = Inr fw \<and> pulse_value fw (rate s) = Some x \<and>
           signal s w = Inr (s\<lparr>ch := Some (k + 1)\<rparr>, [Write axis v], True) \<and>
           \<bar>of_int v\<bar> \<le> \<bar>x\<bar> \<and> \<bar>x\<bar> < \<bar>of_int v\<bar> + 1 \<and> 0 \<le> of_int v * x"
proof -
  from signal_returns[OF reachable_marker_in_range[OF assms(1)] assms(2)]
  obtain s' calls b where "signal s w = Inr (s', calls, b)" by blast
  with assms(3-5) py_int_truncates show ?thesis
    by (auto simp: signal_def split: if_splits sum.splits option.splits)
qed

theorem signal_writes_truncated_value_witness:
  "reachable decoder_synced \<and> (44::int) < marker decoder_synced \<and>
   (\<exists>x v. pulse_value 44 (rate decoder_synced) = Some x \<and>
      signal decoder_synced 44 = Inr (decoder_synced\<lparr>ch := Some 1\<rparr>, [Write ABS_X v], True) \<and>
      \<bar>of_int v\<bar> \<le> \<bar>x\<bar> \<and> \<bar>x\<bar> < \<bar>of_int v\<bar> + 1 \<and> 0 \<le> of_int v * x)"
proof -
  have h: "(1::int) \<le> 44" "44 < marker decoder_synced" "ch decoder_synced = Some 0"
    "map_of (mapping decoder_synced) 0 = Some ABS_X"
    by (simp_all add: decoder_synced_def ppm_mapping_def)
  from signal_writes_truncated_value[OF reachable_synced h] reachable_synced h(2)
  show ?thesis by (auto simp: py_float_44)
qed

text \<open>
  Claim C7: for a channel pulse (width below the marker width) processed while the decoder
  is unsynced, or while its channel index is outside the domain of the channel mapping,
  \<^verbatim>\<open>signal\<close> writes no axis, requests no sync flush and leaves the decoder unchanged.
  For the mapping of the source every index from 4 on is outside the domain
  (\<open>ppm_mapping_outside\<close>).
\<close>

theorem signal_untracked_noop:
  assumes "w < marker s"
    and "ch s = None \<or> (\<exists>k. ch s = Some k \<and> map_of (mapping s) k = None)"
  shows "signal s w = Inr (s, [], False)"
  using assms by (auto simp: signal_def)

theorem signal_untracked_noop_witness:
  "(44::int) < marker (decoder_44100\<lparr>ch := Some 4\<rparr>) \<and>
   map_of (mapping (decoder_44100\<lparr>ch := Some 4\<rparr>)) 4 = None \<and>
   signal (decoder_44100\<lparr>ch := Some 4\<rparr>) 44 = Inr (decoder_44100\<lparr>ch := Some 4\<rparr>, [], False) \<and>
   signal decoder_44100 44 = Inr (decoder_44100, [], False)"
proof -
  have h1: "(44::int) < marker (decoder_44100\<lparr>ch := Some 4\<rparr>)" "(44::int) < marker decoder_44100"
    by (simp_all add: decoder_44100_def)
  have h2: "map_of (mapping (decoder_44100\<lparr>ch := Some 4\<rparr>)) 4 = None"
    by (simp add: decoder_44100_def ppm_mapping_outside ppm_mapping_def)
  have h3: "ch decoder_44100 = None" by (simp add: decoder_44100_def)
  from signal_untracked_noop[OF h1(1)] signal_untracked_noop[OF h1(2)] h1 h2 h3
  show ?thesis by simp
qed

section \<open>The constructor\<close>

text \<open>
  Claim C3, as stated, fails: the constructor declares every axis with the parameter tuple
  \<open>(0, 5, 255, 0)\<close>, whose minimum, the second field of \<^verbatim>\<open>AbsInfo\<close>, is 5 and not 0.
\<close>

theorem init_axis_range_counterexample:
  "init 44100 =
     Inr (decoder_44100,
          [UInput ''ppmadapter''
             [(ABS_X, [0, 5, 255, 0]), (ABS_Y, [0, 5, 255, 0]),
              (ABS_Z, [0, 5, 255, 0]), (ABS_THROTTLE, [0, 5, 255, 0])]
             [(288, ''BTN_JOYSTICK'')]]) \<and>
   abs_min (absinfo_of [0, 5, 255, 0]) = 5"
  using init_44100 by (simp add: absinfo_of_def)

text \<open>
  Claim C3, amended: a constructor that returns makes exactly one call on the device
  library, the declaration of the device \<^verbatim>\<open>ppmadapter\<close> with one digital button (code
  288) and with every axis of the channel mapping, in its order, each with the parameter
  tuple \<open>(0, 5, 255, 0)\<close>: initial value 0, minimum 5, maximum 255, fuzz 0.
\<close>

theorem init_declares_device:
  assumes "init r = Inr (s, calls)"
  shows "calls = [UInput ''ppmadapter''
                    (map (\<lambda>axis. (axis, [0, 5, 255, 0])) (map snd (mapping s)))
                    [(288, ''BTN_JOYSTICK'')]] \<and>
         absinfo_of [0, 5, 255, 0] =
           \<lparr>abs_value = 0, abs_min = 5, abs_max = 255, abs_fuzz = 0, abs_flat = 0,
            abs_resolution = 0\<rparr>"
  using assms
  by (auto simp: init_def Let_def absinfo_of_def eval_nat_numeral split: sum.splits option.splits)

theorem init_declares_device_witness:
  "init 44100 =
     Inr (decoder_44100,
          [UInput ''ppmadapter''
             (map (\<lambda>axis. (axis, [0, 5, 255, 0])) (map snd (mapping decoder_44100)))
             [(288, ''BTN_JOYSTICK'')]])"
proof -
  obtain calls where c: "init 44100 = Inr (decoder_44100, calls)"
    using init_44100 by simp
  from init_declares_device[OF c] c show ?thesis by simp
qed

section \<open>Feeding a block\<close>

text \<open>
  Claim C10: on the first call of \<^verbatim>\<open>feed\<close> after construction the first sample only
  sets the trailing edge level. Whatever its value, also above the threshold, the
  iteration at index 0 calls neither \<^verbatim>\<open>signal\<close> nor the device and changes no other
  field, the loop goes on from index 1 with that decoder, and a block of this one sample
  leaves nothing else behind.
\<close>

theorem first_sample_only_initialises:
  assumes "init r = Inr (s, calls)"
  shows "feed_step s 0 x = Inr (s\<lparr>last_edge := Some (threshold s < x)\<rparr>, [], False) \<and>
         feed_loop (x # xs) 0 (s, [], False) =
           feed_loop xs 1 (s\<lparr>last_edge := Some (threshold s < x)\<rparr>, [], False) \<and>
         feed s [x] = Inr (s\<lparr>last_edge := Some (threshold s < x)\<rparr>, [])"
proof -
  from init_fields[OF assms] have n: "last_edge s = None" "lf s = None" by simp_all
  have step: "feed_step s 0 x = Inr (s\<lparr>last_edge := Some (threshold s < x)\<rparr>, [], False)"
    using n by (simp add: feed_step_def)
  then show ?thesis using n by (simp add: feed_def)
qed

theorem first_sample_only_initialises_witness:
  "feed_step decoder_44100 0 20000 = Inr (decoder_44100\<lparr>last_edge := Some True\<rparr>, [], False) \<and>
   feed decoder_44100 [20000] = Inr (decoder_44100\<lparr>last_edge := Some True\<rparr>, [])"
proof -
  have t: "threshold decoder_44100 < 20000" by (simp add: decoder_44100_def)
  from first_sample_only_initialises[OF init_44100, of 20000 "[]"] t show ?thesis by simp
qed

text \<open>
  Claim C4: when the loop of \<^verbatim>\<open>feed\<close> over a block ends with the decoder \<open>s1\<close>, the call
  returns, and with the falling-edge offset of \<open>s1\<close> less the block length: if that
  offset is defined and strictly below minus the sample rate, the decoder returned is
  unsynced and its offset unset; otherwise the channel index is that of \<open>s1\<close> and the
  offset the normalised one (unset if it was unset).
\<close>

theorem feed_sync_loss_guard:
  assumes "feed_loop data 0 (s, [], False) = Inr (s1, calls, sync_req)"
  shows "\<exists>s' calls'. feed s data = Inr (s', calls') \<and>
           (case lf s1 of
              None \<Rightarrow> lf s' = None \<and> ch s' = ch s1
            | Some f \<Rightarrow>
                if of_int (f - int (length data)) < - rate s then lf s' = None \<and> ch s' = None
                else lf s' = Some (f - int (length data)) \<and> ch s' = ch s1)"
proof -
  from feed_loop_fields[OF assms] have "rate s1 = rate s" by simp
  then show ?thesis
    using assms by (auto simp: feed_def Let_def split: option.splits)
qed

theorem feed_sync_loss_guard_witness:
  "feed_loop (0 # replicate 44100 0) 0 (decoder_synced, [], False) =
     Inr (decoder_synced\<lparr>lf := Some 0, last_edge := Some False\<rparr>, [], False) \<and>
   (\<exists>s' calls'. feed decoder_synced (0 # replicate 44100 0) = Inr (s', calls') \<and>
      lf s' = None \<and> ch s' = None)"
proof -
  let ?s1 = "decoder_synced\<lparr>lf := Some 0, last_edge := Some False\<rparr>"
  have h: "feed_loop (0 # replicate 44100 0) 0 (decoder_synced, [], False) = Inr (?s1, [], False)"
    by (simp add: feed_step_def decoder_synced_def feed_loop_low_run_end)
  have r: "lf ?s1 = Some 0" "rate decoder_synced = 44100" by (simp_all add: decoder_synced_def)
  from feed_sync_loss_guard[OF h] h r show ?thesis by auto
qed

text \<open>
  Claim C5: for every block fed to a reachable decoder, \<^verbatim>\<open>feed\<close> returns, \<^verbatim>\<open>syn\<close> is
  called at most once, and it is called if and only if an axis was written while the
  block was processed.
\<close>

theorem feed_syn_iff_write:
  assumes "reachable s"
  shows "\<exists>s' calls. feed s data = Inr (s', calls) \<and>
           length (filter (\<lambda>c. c = Syn) calls) \<le> 1 \<and>
           (Syn \<in> set calls \<longleftrightarrow> (\<exists>axis v. Write axis v \<in> set calls))"
proof -
  from feed_returns[OF assms] obtain s' calls where f: "feed s data = Inr (s', calls)"
    by blast
  from feed_calls_syn[OF f] f show ?thesis by blast
qed

theorem feed_syn_iff_write_witness:
  "reachable decoder_synced \<and>
   (\<exists>s' calls. feed decoder_synced (replicate 44 0 @ [20000]) = Inr (s', calls) \<and>
      calls = [Write ABS_X 75, Syn] \<and>
      length (filter (\<lambda>c. c = Syn) calls) \<le> 1 \<and>
      (Syn \<in> set calls \<longleftrightarrow> (\<exists>axis v. Write axis v \<in> set calls)))"
  using feed_syn_iff_write[OF reachable_synced, of "replicate 44 0 @ [20000]"]
    reachable_synced feed_synced_pulse
  by auto

text \<open>
  Claim C8: feeding an empty block to a reachable decoder is a no-op: no axis write, no
  call of \<^verbatim>\<open>syn\<close>, and the decoder (trailing edge level, falling-edge offset, channel
  index and all other fields) is unchanged.
\<close>

theorem feed_empty_noop:
  assumes "reachable s"
  shows "feed s [] = Inr (s, [])"
proof (cases "lf s")
  case None
  then show ?thesis by (simp add: feed_def)
next
  case (Some f)
  with reachable_lf_in_window[OF assms] have "\<not> of_int f < - rate s"
    by (simp add: lf_in_window_def)
  moreover have "s\<lparr>lf := Some f\<rparr> = s" using Some by simp
  ultimately show ?thesis using Some by (simp add: feed_def)
qed

theorem feed_empty_noop_witness:
  "reachable decoder_synced \<and> feed decoder_synced [] = Inr (decoder_synced, [])"
  using feed_empty_noop[OF reachable_synced] reachable_synced by simp

text \<open>
  Claim C9: every call of \<^verbatim>\<open>feed\<close> on a reachable decoder returns, and afterwards the
  falling-edge offset is unset (as it is when the sync-loss guard has fired) or an
  integer from minus the sample rate up to \<open>-1\<close>. The decoder returned is reachable
  again, so every later call keeps this.
\<close>

theorem feed_keeps_lf_in_window:
  assumes "reachable s"
  shows "\<exists>s' calls. feed s data = Inr (s', calls) \<and> reachable s' \<and>
           (lf s' = None \<or> (\<exists>f. lf s' = Some f \<and> - rate s' \<le> of_int f \<and> f \<le> - 1))"
proof -
  from feed_returns[OF assms] obtain s' calls where f: "feed s data = Inr (s', calls)"
    by blast
  from feed_lf_in_window[OF reachable_lf_in_window[OF assms] f] f reachable_feed[OF assms f]
  show ?thesis
    by (auto simp: lf_in_window_def split: option.splits)
qed

theorem feed_keeps_lf_in_window_witness:
  "reachable decoder_synced \<and>
   (\<exists>s' calls. feed decoder_synced (replicate 44 0 @ [20000]) = Inr (s', calls) \<and>
      lf s' = Some (- 45) \<and> - rate s' \<le> of_int (- 45) \<and> (- 45 :: int) \<le> - 1)"
  using feed_keeps_lf_in_window[OF reachable_synced, of "replicate 44 0 @ [20000]"]
    reachable_synced feed_synced_pulse
  by (auto simp: decoder_synced_def)

section \<open>Splitting a block\<close>

text \<open>
  Claim C6, as stated, fails when the sync-loss guard fires at the end of the first
  block. At 44100 Hz, the first block has a falling edge at index 1 followed by 44100
  more low samples; the second block rises at its index 0, stays low for 44 samples and
  rises again. Fed separately, the guard clears the offset after the first block, the
  first pulse is never measured, the decoder stays unsynced and nothing is written. Fed
  as one block, the first pulse has width 44101, the decoder syncs, and the second pulse
  is written as 75 to \<^verbatim>\<open>ABS_X\<close>.
\<close>

theorem feed_split_blocks_counterexample:
  "feed decoder_44100 (20000 # replicate 44101 0) =
     Inr (decoder_44100\<lparr>last_edge := Some False\<rparr>, []) \<and>
   feed (decoder_44100\<lparr>last_edge := Some False\<rparr>) (20000 # replicate 44 0 @ [20000]) =
     Inr (decoder_44100\<lparr>last_edge := Some True, lf := Some (- 45)\<rparr>, []) \<and>
   feed decoder_44100 ((20000 # replicate 44101 0) @ (20000 # replicate 44 0 @ [20000])) =
     Inr (decoder_44100\<lparr>last_edge := Some True, lf := Some (- 45), ch := Some 1\<rparr>,
          [Write ABS_X 75, Syn])"
proof -
  have fa: "feed decoder_44100 (20000 # replicate 44101 0) =
     Inr (decoder_44100\<lparr>last_edge := Some False\<rparr>, [])"
    by (simp add: replicate_unfold feed_eval)
  have fb: "feed (decoder_44100\<lparr>last_edge := Some False\<rparr>) (20000 # replicate 44 0 @ [20000]) =
     Inr (decoder_44100\<lparr>last_edge := Some True, lf := Some (- 45)\<rparr>, [])"
    by (simp add: replicate_unfold feed_eval)
  have fab: "feed decoder_44100 ((20000 # replicate 44101 0) @ (20000 # replicate 44 0 @ [20000])) =
     Inr (decoder_44100\<lparr>last_edge := Some True, lf := Some (- 45), ch := Some 1\<rparr>,
          [Write ABS_X 75, Syn])"
    by (simp add: replicate_unfold feed_eval py_float_44 pulse_value_44_44100 py_int_def
          floor_rat_numeral_div)
  from fa fb fab show ?thesis by simp
qed

text \<open>
  Claim C6, amended: when a block \<open>a\<close> is fed and the falling-edge offset is still
  defined afterwards (a falling edge is pending and the sync-loss guard has not fired),
  feeding the next block \<open>b\<close> leaves the same decoder and makes the same axis writes, in
  the same order and with the same values, as feeding the concatenated block \<open>a @ b\<close>
  in one call; only the calls of \<^verbatim>\<open>syn\<close> may differ in number. A pulse that falls in
  \<open>a\<close> and rises in \<open>b\<close> is therefore measured and decoded alike.
\<close>

theorem feed_split_blocks:
  assumes "feed s a = Inr (s1, c1)" and "lf s1 \<noteq> None" and "feed s1 b = Inr (s2, c2)"
  shows "\<exists>c. feed s (a @ b) = Inr (s2, c) \<and>
           filter (\<lambda>x. x \<noteq> Syn) c = filter (\<lambda>x. x \<noteq> Syn) (c1 @ c2)"
proof -
  let ?n = "int (length a)" and ?m = "int (length b)"
  from assms(1) obtain sa ca ba where la: "feed_loop a 0 (s, [], False) = Inr (sa, ca, ba)"
    by (auto simp: feed_def split: sum.splits)
  from assms(1,2) la obtain f where fa: "lf sa = Some f" and nofire: "\<not> of_int (f - ?n) < - rate sa"
    and s1: "s1 = sa\<lparr>lf := Some (f - ?n)\<rparr>" and c1: "c1 = (if ba then ca @ [Syn] else ca)"
    by (auto simp: feed_def Let_def split: option.splits if_splits)
  from fa s1 have s1': "s1 = shift_lf ?n sa" by (simp add: shift_lf_def)
  from assms(3) obtain sb' cb bb where lb': "feed_loop b 0 (s1, [], False) = Inr (sb', cb, bb)"
    by (auto simp: feed_def split: sum.splits)
  from lb' obtain sb where lb: "feed_loop b ?n (sa, [], False) = Inr (sb, cb, bb)"
    and sb': "sb' = shift_lf ?n sb"
    unfolding s1' feed_loop_shift by (auto split: sum.splits)
  have lab: "feed_loop (a @ b) 0 (s, [], False) = Inr (sb, ca @ cb, ba \<or> bb)"
    using la lb by (simp add: feed_loop_append) (subst feed_loop_acc, simp)
  let ?c = "if ba \<or> bb then (ca @ cb) @ [Syn] else ca @ cb"
  have c2: "c2 = (if bb then cb @ [Syn] else cb)"
    using assms(3) lb' by (auto simp: feed_def Let_def split: option.splits if_splits)
  have calls: "filter (\<lambda>x. x \<noteq> Syn) ?c = filter (\<lambda>x. x \<noteq> Syn) (c1 @ c2)"
    using c1 c2 by simp
  have state: "feed s (a @ b) = Inr (s2, ?c)"
  proof (cases "lf sb")
    case None
    then have "sb' = sb" using sb' by (simp add: shift_lf_unset)
    with None assms(3) lb' lab show ?thesis
      by (simp add: feed_def Let_def)
  next
    case (Some g)
    have lfsb': "lf sb' = Some (g - ?n)" and rate: "rate sb' = rate sb"
      using Some sb' by simp_all
    have e: "g - ?n - ?m = g - int (length (a @ b))" by simp
    have upd: "sb'\<lparr>lf := Some (g - int (length (a @ b)))\<rparr> = sb\<lparr>lf := Some (g - int (length (a @ b)))\<rparr>"
      "sb'\<lparr>ch := None, lf := None\<rparr> = sb\<lparr>ch := None, lf := None\<rparr>"
      using sb' by (simp_all add: shift_lf_def)
    from assms(3) lb' lfsb' rate upd
    have "s2 = (if of_int (g - int (length (a @ b))) < - rate sb
                then sb\<lparr>ch := None, lf := None\<rparr>
                else sb\<lparr>lf := Some (g - int (length (a @ b)))\<rparr>)"
      unfolding e[symmetric] by (auto simp: feed_def Let_def split: if_splits)
    with Some lab show ?thesis
      by (simp add: feed_def Let_def)
  qed
  from state calls show ?thesis by blast
qed

theorem feed_split_blocks_witness:
  "feed (decoder_44100\<lparr>ch := Some 0\<rparr>) [20000, 0] =
     Inr (decoder_44100\<lparr>ch := Some 0, last_edge := Some False, lf := Some (- 1)\<rparr>, []) \<and>
   feed (decoder_44100\<lparr>ch := Some 0, last_edge := Some False, lf := Some (- 1)\<rparr>)
        (replicate 43 0 @ [20000]) =
     Inr (decoder_44100\<lparr>ch := Some 1, last_edge := Some True, lf := Some (- 45)\<rparr>,
          [Write ABS_X 75, Syn]) \<and>
   (\<exists>c. feed (decoder_44100\<lparr>ch := Some 0\<rparr>) ([20000, 0] @ replicate 43 0 @ [20000]) =
          Inr (decoder_44100\<lparr>ch := Some 1, last_edge := Some True, lf := Some (- 45)\<rparr>, c) \<and>
        filter (\<lambda>x. x \<noteq> Syn) c = [Write ABS_X 75])"
proof -
  let ?s = "decoder_44100\<lparr>ch := Some 0\<rparr>"
  let ?s1 = "decoder_44100\<lparr>ch := Some 0, last_edge := Some False, lf := Some (- 1)\<rparr>"
  let ?s2 = "decoder_44100\<lparr>ch := Some 1, last_edge := Some True, lf := Some (- 45)\<rparr>"
  have fa: "feed ?s [20000, 0] = Inr (?s1, [])"
    by (simp add: feed_eval)
  have pending: "lf ?s1 \<noteq> None" by simp
  have fb: "feed ?s1 (replicate 43 0 @ [20000]) = Inr (?s2, [Write ABS_X 75, Syn])"
    by (simp add: feed_eval py_float_44 pulse_value_44_44100 py_int_def floor_rat_numeral_div)
  from feed_split_blocks[OF fa pending fb] fa fb show ?thesis by simp
qed

end
